theory Spec2Isabelle
  imports Complex_Main
begin

section \<open>The acquisition coordinator of ni660x (\<open>CountingApp\<close> in application.py)\<close>

subsection \<open>Errors and Python containers\<close>

text \<open>
  The exceptions the coordinator can raise or let through. \<open>KeyError\<close> is what a
  dictionary lookup of an absent key raises (the specification calls it NotFoundError),
  \<open>TypeError\<close> what indexing a list with a string raises, \<open>AttributeError\<close> what reading
  a missing attribute raises, \<open>ValueError\<close> what \<open>min\<close> of an empty sequence raises, and
  \<open>ResourceError\<close> stands for a failure of the hardware layer.
\<close>

datatype error = TypeError | KeyError | AttributeError | ValueError | ResourceError

text \<open>
  A Python dictionary keeps its keys in insertion order, so \<open>self._channels\<close> is an
  association list. \<open>dict_get d k\<close> is \<open>d[k]\<close> and \<open>dict_set k v d\<close> is \<open>d[k] = v\<close>: an
  existing key keeps its position, a new key goes to the end.
\<close>

definition dict_get :: "('k \<times> 'v) list \<Rightarrow> 'k \<Rightarrow> error + 'v" where
  "dict_get d k = (case map_of d k of None \<Rightarrow> Inl KeyError | Some v \<Rightarrow> Inr v)"

fun dict_set :: "'k \<Rightarrow> 'v \<Rightarrow> ('k \<times> 'v) list \<Rightarrow> ('k \<times> 'v) list" where
  "dict_set k v [] = [(k, v)]"
| "dict_set k v ((k', v') # d) =
     (if k' = k then (k, v) # d else (k', v') # dict_set k v d)"

text \<open>
  \<open>xs[k]\<close> for a list \<open>xs\<close> and a string \<open>k\<close>: list indices must be integers or slices,
  so the lookup raises whatever the list holds.
\<close>

definition list_getitem_str :: "'a list \<Rightarrow> string \<Rightarrow> error + 'a" where
  "list_getitem_str xs k = Inl TypeError"

text \<open>
  \<open>xs[start:end]\<close>: a negative bound counts from the end, and both bounds are clipped
  to the length of the sequence.
\<close>

definition slice_bound :: "int \<Rightarrow> int \<Rightarrow> nat" where
  "slice_bound len i =
     (if i < 0 then (if i + len < 0 then 0 else nat (i + len))
      else if len < i then nat len else nat i)"

definition py_slice :: "'a list \<Rightarrow> int \<Rightarrow> int \<Rightarrow> 'a list" where
  "py_slice xs start end =
     (let lo = slice_bound (int (length xs)) start;
          hi = slice_bound (int (length xs)) end
      in take (hi - lo) (drop lo xs))"

text \<open>\<open>min(xs)\<close> of a list of integers.\<close>

fun py_min :: "int list \<Rightarrow> error + int" where
  "py_min [] = Inl ValueError"
| "py_min (x # xs) = Inr (foldl min x xs)"

subsection \<open>Channels, the timer and the driver layer\<close>

text \<open>
  Modelled from the spec: the class PulseCounter (counter.py) is not part of the
  sources at hand. The attributes \<open>enabled\<close>, \<open>data\<close> and \<open>sample_readies\<close> are the ones
  application.py reads and writes; \<open>armed\<close> records whether the counting resource is
  armed, and \<open>hw_ok\<close> whether the underlying hardware resource carries out what is
  asked of it: when it does not, arming and disarming fail with ResourceError
  (sections 4.1 and 7 of the specification).
\<close>

record channel =
  enabled :: bool
  data :: "real list"
  sample_readies :: int
  armed :: bool
  hw_ok :: bool

text \<open>
  Modelled from the spec: the class PulseTimeGenerator (generator.py) is not part of
  the sources at hand; the coordinator only reads its \<open>done\<close> attribute. \<open>timer_ok\<close>
  says whether the timer's hardware resource carries out what is asked of it
  (sections 4.2 and 7 of the specification).
\<close>

record timer =
  timer_done :: bool
  timer_ok :: bool

text \<open>
  The methods of the two missing classes are parameters of the coordinator. Each takes
  the object and returns the exception it raised, if any, together with the object as
  the call left it.
\<close>

record driver =
  ch_start :: "int \<Rightarrow> channel \<Rightarrow> error option \<times> channel"
  ch_stop :: "channel \<Rightarrow> error option \<times> channel"
  tm_start :: "int \<Rightarrow> real \<Rightarrow> real \<Rightarrow> real \<Rightarrow> timer \<Rightarrow> error option \<times> timer"
  tm_stop :: "timer \<Rightarrow> error option \<times> timer"

text \<open>
  Modelled from the spec: \<open>PulseCounter.start\<close> and \<open>PulseCounter.stop\<close> (counter.py,
  missing). Section 4.1: start arms the resource and resets buffer and ready count, and
  fails with ResourceError if the hardware resource cannot be armed; stop disarms the
  resource and does the same whether or not the channel was started. Section 7: stop
  fails with ResourceError if the hardware resource could not be stopped.
\<close>

definition spec_ch_start :: "int \<Rightarrow> channel \<Rightarrow> error option \<times> channel" where
  "spec_ch_start samples c =
     (if hw_ok c then (None, c\<lparr>data := [], sample_readies := 0, armed := True\<rparr>)
      else (Some ResourceError, c))"

definition spec_ch_stop :: "channel \<Rightarrow> error option \<times> channel" where
  "spec_ch_stop c =
     (if hw_ok c then (None, c\<lparr>armed := False\<rparr>) else (Some ResourceError, c))"

text \<open>
  Modelled from the spec: \<open>PulseTimeGenerator.start\<close> and \<open>PulseTimeGenerator.stop\<close>
  (generator.py, missing). Section 4.2: start fails with ResourceError on a
  non-positive high or low time or a hardware conflict, and otherwise begins a pulse
  train (\<open>done\<close> is false until it ends); stop halts it, after which \<open>done\<close> is true.
  Section 7: stop fails with ResourceError if the hardware resource could not be
  stopped.
\<close>

definition spec_tm_start ::
  "int \<Rightarrow> real \<Rightarrow> real \<Rightarrow> real \<Rightarrow> timer \<Rightarrow> error option \<times> timer" where
  "spec_tm_start samples high_time low_time initial_delay t =
     (if high_time \<le> 0 \<or> low_time \<le> 0 \<or> \<not> timer_ok t then (Some ResourceError, t)
      else (None, t\<lparr>timer_done := False\<rparr>))"

definition spec_tm_stop :: "timer \<Rightarrow> error option \<times> timer" where
  "spec_tm_stop t =
     (if timer_ok t then (None, t\<lparr>timer_done := True\<rparr>) else (Some ResourceError, t))"

definition spec_driver :: driver where
  "spec_driver =
     \<lparr>ch_start = spec_ch_start, ch_stop = spec_ch_stop,
      tm_start = spec_tm_start, tm_stop = spec_tm_stop\<rparr>"

subsection \<open>The coordinator\<close>

text \<open>
  The calls the coordinator makes on its channels and its timer, in the order it makes
  them. The log is not a field of the Python object: it records the effects of the
  method calls so that their order can be stated.
\<close>

datatype call =
    ChStart string int
  | ChStop string
  | TmStart int real real real
  | TmStop

record app =
  timer :: timer
  channels :: "(string \<times> channel) list"
  channels_started :: "string list"
  calls :: "call list"

text \<open>
  \<open>__init__\<close>, from the timer object and the counters built from the configuration,
  in configuration order (reading the file and connecting the terminals are outside
  the coordinator).
\<close>

definition CountingApp_init :: "timer \<Rightarrow> (string \<times> channel) list \<Rightarrow> app" where
  "CountingApp_init tm counters =
     \<lparr>timer = tm,
      channels = foldl (\<lambda>d (name, c). dict_set name c d) [] counters,
      channels_started = [],
      calls = []\<rparr>"

text \<open>
  The loop of \<open>start_channels\<close> over \<open>self._channels.items()\<close>: start the channel, then
  append its name if the channel is enabled. An exception of \<open>start\<close> ends the loop and
  leaves the state as it is at that point.
\<close>

fun start_items :: "driver \<Rightarrow> int \<Rightarrow> (string \<times> channel) list \<Rightarrow> app \<Rightarrow> error option \<times> app" where
  "start_items drv samples [] s = (None, s)"
| "start_items drv samples ((name, channel) # rest) s =
     (case ch_start drv samples channel of
        (Some e, channel') \<Rightarrow>
          (Some e, s\<lparr>channels := dict_set name channel' (channels s),
                     calls := calls s @ [ChStart name samples]\<rparr>)
      | (None, channel') \<Rightarrow>
          start_items drv samples rest
            (s\<lparr>channels := dict_set name channel' (channels s),
               calls := calls s @ [ChStart name samples],
               channels_started :=
                 (if enabled channel' then channels_started s @ [name]
                  else channels_started s)\<rparr>))"

definition start_channels :: "driver \<Rightarrow> int \<Rightarrow> app \<Rightarrow> error option \<times> app" where
  "start_channels drv samples s =
     start_items drv samples (channels s) (s\<lparr>channels_started := []\<rparr>)"

definition start_timer ::
  "driver \<Rightarrow> int \<Rightarrow> real \<Rightarrow> real \<Rightarrow> real \<Rightarrow> app \<Rightarrow> error option \<times> app" where
  "start_timer drv samples high_time low_time initial_delay s =
     (case tm_start drv samples high_time low_time initial_delay (timer s) of
        (r, t') \<Rightarrow>
          (r, s\<lparr>timer := t',
                calls := calls s @ [TmStart samples high_time low_time initial_delay]\<rparr>))"

definition start_all ::
  "driver \<Rightarrow> int \<Rightarrow> real \<Rightarrow> real \<Rightarrow> real \<Rightarrow> app \<Rightarrow> error option \<times> app" where
  "start_all drv samples high_time low_time initial_delay s =
     (case start_channels drv samples s of
        (Some e, s') \<Rightarrow> (Some e, s')
      | (None, s') \<Rightarrow> start_timer drv samples high_time low_time initial_delay s')"

fun stop_items :: "driver \<Rightarrow> (string \<times> channel) list \<Rightarrow> app \<Rightarrow> error option \<times> app" where
  "stop_items drv [] s = (None, s)"
| "stop_items drv ((name, channel) # rest) s =
     (case ch_stop drv channel of
        (Some e, channel') \<Rightarrow>
          (Some e, s\<lparr>channels := dict_set name channel' (channels s),
                     calls := calls s @ [ChStop name]\<rparr>)
      | (None, channel') \<Rightarrow>
          stop_items drv rest
            (s\<lparr>channels := dict_set name channel' (channels s),
               calls := calls s @ [ChStop name]\<rparr>))"

definition stop :: "driver \<Rightarrow> app \<Rightarrow> error option \<times> app" where
  "stop drv s =
     (case tm_stop drv (timer s) of
        (Some e, t') \<Rightarrow> (Some e, s\<lparr>timer := t', calls := calls s @ [TmStop]\<rparr>)
      | (None, t') \<Rightarrow>
          stop_items drv (channels s) (s\<lparr>timer := t', calls := calls s @ [TmStop]\<rparr>))"

text \<open>
  \<open>get_all_data\<close>: the loop runs over \<open>self._channels_started\<close> and indexes that same
  list with the name. Had the lookup returned an element, it would be a name, which has
  no attribute \<open>data\<close>.
\<close>

fun get_all_data_loop ::
  "string list \<Rightarrow> string list \<Rightarrow> (string \<times> real list) list \<Rightarrow> error + (string \<times> real list) list" where
  "get_all_data_loop [] started d = Inr d"
| "get_all_data_loop (name # rest) started d =
     (case list_getitem_str started name of
        Inl e \<Rightarrow> Inl e
      | Inr (x :: string) \<Rightarrow> Inl AttributeError)"

definition get_all_data :: "app \<Rightarrow> error + (string \<times> real list) list" where
  "get_all_data s = get_all_data_loop (channels_started s) (channels_started s) []"

definition get_names :: "app \<Rightarrow> string list" where
  "get_names s = map fst (channels s)"

definition get_channel_data :: "app \<Rightarrow> string \<Rightarrow> int \<Rightarrow> int \<Rightarrow> error + real list" where
  "get_channel_data s name start end =
     (case dict_get (channels s) name of
        Inl e \<Rightarrow> Inl e
      | Inr c \<Rightarrow> Inr (py_slice (data c) start end))"

fun set_enabled_loop :: "string list \<Rightarrow> bool \<Rightarrow> app \<Rightarrow> error option \<times> app" where
  "set_enabled_loop [] en s = (None, s)"
| "set_enabled_loop (name # rest) en s =
     (case dict_get (channels s) name of
        Inl e \<Rightarrow> (Some e, s)
      | Inr c \<Rightarrow>
          set_enabled_loop rest en
            (s\<lparr>channels := dict_set name (c\<lparr>enabled := en\<rparr>) (channels s)\<rparr>))"

definition set_channels_enabled :: "string list \<Rightarrow> bool \<Rightarrow> app \<Rightarrow> error option \<times> app" where
  "set_channels_enabled names en s =
     set_enabled_loop (if length names = 0 then map fst (channels s) else names) en s"

definition get_channels_enabled :: "app \<Rightarrow> (string \<times> bool) list" where
  "get_channels_enabled s =
     foldl (\<lambda>status (name, c). dict_set name (enabled c) status) [] (channels s)"

fun samples_readies_loop :: "string list \<Rightarrow> app \<Rightarrow> int list \<Rightarrow> error + int list" where
  "samples_readies_loop [] s acc = Inr acc"
| "samples_readies_loop (name # rest) s acc =
     (case dict_get (channels s) name of
        Inl e \<Rightarrow> Inl e
      | Inr c \<Rightarrow> samples_readies_loop rest s (acc @ [sample_readies c]))"

definition get_samples_readies :: "app \<Rightarrow> error + int" where
  "get_samples_readies s =
     (case samples_readies_loop (channels_started s) s [] of
        Inl e \<Rightarrow> Inl e
      | Inr samples_readies \<Rightarrow>
          (if length samples_readies \<noteq> 0 then py_min samples_readies else Inr 0))"

definition is_done :: "app \<Rightarrow> bool" where
  "is_done s = timer_done (timer s)"

subsection \<open>Notions the properties are stated with\<close>

text \<open>
  Slicing in the words of the specification: start-inclusive, end-exclusive, a
  negative index counting from the end. Position \<open>i\<close> of the buffer is part of the
  slice when it lies between the two bounds so understood.
\<close>

definition slice_position :: "nat \<Rightarrow> int \<Rightarrow> int" where
  "slice_position len i = (if i < 0 then int len + i else i)"

definition slice_spec :: "'a list \<Rightarrow> int \<Rightarrow> int \<Rightarrow> 'a list" where
  "slice_spec xs start end =
     map (\<lambda>i. xs ! i)
       (filter (\<lambda>i. slice_position (length xs) start \<le> int i \<and>
                     int i < slice_position (length xs) end)
          [0..<length xs])"

text \<open>
  The dictionary of channels with the enabled flag of the channels named in \<open>N\<close> set
  to \<open>en\<close>, and nothing else changed.
\<close>

definition mark_enabled ::
  "string set \<Rightarrow> bool \<Rightarrow> (string \<times> channel) list \<Rightarrow> (string \<times> channel) list" where
  "mark_enabled N en d =
     map (\<lambda>(name, c). (name, if name \<in> N then c\<lparr>enabled := en\<rparr> else c)) d"

text \<open>
  For one run of the loop of \<open>start_channels\<close> over \<open>items\<close>: \<open>started_ok\<close> are the
  channels whose \<open>start\<close> returned (those before the first one whose \<open>start\<close> raises),
  \<open>start_called\<close> the channels on which \<open>start\<close> was called (the former and the one
  that raised, if any), and \<open>started_and_enabled\<close> the names of the channels that were
  started and whose enabled flag was true when their \<open>start\<close> returned.
\<close>

definition started_ok ::
  "driver \<Rightarrow> int \<Rightarrow> (string \<times> channel) list \<Rightarrow> (string \<times> channel) list" where
  "started_ok drv samples items =
     takeWhile (\<lambda>(name, c). fst (ch_start drv samples c) = None) items"

definition start_called ::
  "driver \<Rightarrow> int \<Rightarrow> (string \<times> channel) list \<Rightarrow> (string \<times> channel) list" where
  "start_called drv samples items =
     take (Suc (length (started_ok drv samples items))) items"

definition started_and_enabled ::
  "driver \<Rightarrow> int \<Rightarrow> (string \<times> channel) list \<Rightarrow> string list" where
  "started_and_enabled drv samples items =
     map fst (filter (\<lambda>(name, c). enabled (snd (ch_start drv samples c)))
                (started_ok drv samples items))"




text \<open>
  What the hardware may do between two calls of the coordinator: samples arrive, ready
  counts change, the pulse train ends. It neither adds or removes a channel, nor
  touches an enabled flag or the list of started names.
\<close>

definition hardware_step :: "app \<Rightarrow> app \<Rightarrow> bool" where
  "hardware_step s s' \<longleftrightarrow>
     channels_started s' = channels_started s \<and>
     calls s' = calls s \<and>
     map fst (channels s') = map fst (channels s) \<and>
     map (\<lambda>(name, c). enabled c) (channels s') = map (\<lambda>(name, c). enabled c) (channels s)"

text \<open>
  The states a coordinator can be in: built by \<open>__init__\<close> and then driven by any
  sequence of its state-changing methods, interleaved with the hardware. The last
  argument keeps, beside the state, the names of the channels that the most recent
  \<open>start_channels\<close> started and found enabled at that moment (none before the first
  call).
\<close>

inductive reachable :: "driver \<Rightarrow> app \<Rightarrow> string list \<Rightarrow> bool" for drv :: driver where
  r_init: "reachable drv (CountingApp_init tm counters) []"
| r_start_channels:
    "reachable drv s g \<Longrightarrow>
     reachable drv (snd (start_channels drv samples s))
       (started_and_enabled drv samples (channels s))"
| r_start_timer:
    "reachable drv s g \<Longrightarrow>
     reachable drv (snd (start_timer drv samples high_time low_time initial_delay s)) g"
| r_start_all:
    "reachable drv s g \<Longrightarrow>
     reachable drv (snd (start_all drv samples high_time low_time initial_delay s))
       (started_and_enabled drv samples (channels s))"
| r_stop: "reachable drv s g \<Longrightarrow> reachable drv (snd (stop drv s)) g"
| r_set_channels_enabled:
    "reachable drv s g \<Longrightarrow> reachable drv (snd (set_channels_enabled names en s)) g"
| r_hardware: "reachable drv s g \<Longrightarrow> hardware_step s s' \<Longrightarrow> reachable drv s' g"

subsection \<open>Example configurations\<close>

text \<open>
  The scenario of the specification: counter \<open>A\<close> is enabled and counter \<open>B\<close> is
  disabled, both freshly built, and the hardware is able to arm both.
\<close>

definition counter_on :: channel where
  "counter_on =
     \<lparr>enabled = True, data = [], sample_readies = 0, armed = False, hw_ok = True\<rparr>"

definition counter_off :: channel where
  "counter_off = counter_on\<lparr>enabled := False\<rparr>"

definition app_AB :: app where
  "app_AB =
     CountingApp_init \<lparr>timer_done = True, timer_ok = True\<rparr> [(''A'', counter_on), (''B'', counter_off)]"

text \<open>Three counters, the second on a hardware resource that cannot be armed.\<close>

definition counter_busy :: channel where
  "counter_busy = counter_on\<lparr>hw_ok := False\<rparr>"

definition app_busy :: app where
  "app_busy =
     CountingApp_init \<lparr>timer_done = True, timer_ok = True\<rparr>
       [(''A'', counter_on), (''B'', counter_busy), (''C'', counter_on)]"


text \<open>
  A run in flight: \<open>A\<close> and \<open>C\<close> are enabled and were collected by \<open>start_all\<close>, \<open>B\<close> is
  disabled; since then five samples have arrived on \<open>A\<close>, three on \<open>B\<close> and two on
  \<open>C\<close>.
\<close>

definition counter_five :: channel where
  "counter_five =
     \<lparr>enabled = True, data = [1, 2, 3, 4, 5], sample_readies = 5, armed = True,
      hw_ok = True\<rparr>"

definition counter_three :: channel where
  "counter_three =
     \<lparr>enabled = False, data = [7, 8, 9], sample_readies = 3, armed = True, hw_ok = True\<rparr>"

definition counter_two :: channel where
  "counter_two =
     \<lparr>enabled = True, data = [4, 6], sample_readies = 2, armed = True, hw_ok = True\<rparr>"

definition app_run :: app where
  "app_run =
     \<lparr>timer = \<lparr>timer_done = False, timer_ok = True\<rparr>,
      channels = [(''A'', counter_five), (''B'', counter_three), (''C'', counter_two)],
      channels_started = [''A'', ''C''],
      calls = [ChStart ''A'' 10, ChStart ''B'' 10, ChStart ''C'' 10, TmStart 10 1 1 0]\<rparr>"

section \<open>Properties\<close>

subsection \<open>Dictionaries\<close>

lemma map_of_dict_set:
  "map_of (dict_set k v d) k' = (if k' = k then Some v else map_of d k')"
  by (induction d) auto

lemma keys_dict_set: "k \<in> fst ` set d \<Longrightarrow> map fst (dict_set k v d) = map fst d"
  by (induction d) (auto simp: rev_image_eqI)

lemma set_keys_dict_set: "fst ` set (dict_set k v d) = insert k (fst ` set d)"
  by (induction k v d rule: dict_set.induct) (simp_all add: insert_commute)

lemma distinct_dict_set:
  "distinct (map fst d) \<Longrightarrow> distinct (map fst (dict_set k v d))"
  by (induction k v d rule: dict_set.induct) (auto simp: set_keys_dict_set)

lemma keys_set: "map fst d' = map fst d \<Longrightarrow> fst ` set d' = fst ` set d"
  by (metis list.set_map)

text \<open>With unique keys, storing under an existing key changes that entry only.\<close>

lemma dict_set_map:
  "distinct (map fst d) \<Longrightarrow> k \<in> fst ` set d \<Longrightarrow>
   dict_set k v d = map (\<lambda>(n, c). (n, if n = k then v else c)) d"
proof (induction d)
  case Nil
  then show ?case by simp
next
  case (Cons p d)
  obtain n c where p: "p = (n, c)" by (cases p)
  show ?case
  proof (cases "n = k")
    case True
    with Cons.prems p have "k \<notin> fst ` set d" by auto
    then have "map (\<lambda>(n, c). (n, if n = k then v else c)) d = d"
      by (induction d) auto
    with True p show ?thesis by simp
  next
    case False
    with Cons p show ?thesis by auto
  qed
qed

lemma dict_get_Inr: "dict_get d k = Inr v \<longleftrightarrow> map_of d k = Some v"
  by (simp add: dict_get_def split: option.splits)

lemma dict_get_key: "dict_get d k = Inr v \<Longrightarrow> k \<in> fst ` set d"
  by (metis dict_get_Inr map_of_eq_None_iff option.distinct(1))

subsection \<open>The example configurations, evaluated\<close>

lemma app_AB_eq:
  "app_AB =
     \<lparr>timer = \<lparr>timer_done = True, timer_ok = True\<rparr>,
      channels = [(''A'', counter_on), (''B'', counter_off)],
      channels_started = [], calls = []\<rparr>"
  by (simp add: app_AB_def CountingApp_init_def)

lemma app_busy_eq:
  "app_busy =
     \<lparr>timer = \<lparr>timer_done = True, timer_ok = True\<rparr>,
      channels = [(''A'', counter_on), (''B'', counter_busy), (''C'', counter_on)],
      channels_started = [], calls = []\<rparr>"
  by (simp add: app_busy_def CountingApp_init_def)

lemma start_channels_app_AB:
  "start_channels spec_driver 10 app_AB =
     (None,
      \<lparr>timer = \<lparr>timer_done = True, timer_ok = True\<rparr>,
       channels = [(''A'', counter_on\<lparr>armed := True\<rparr>), (''B'', counter_off\<lparr>armed := True\<rparr>)],
       channels_started = [''A''],
       calls = [ChStart ''A'' 10, ChStart ''B'' 10]\<rparr>)"
  by (simp add: start_channels_def app_AB_eq spec_driver_def spec_ch_start_def
      counter_on_def counter_off_def)

lemma start_channels_app_busy:
  "start_channels spec_driver 10 app_busy =
     (Some ResourceError,
      \<lparr>timer = \<lparr>timer_done = True, timer_ok = True\<rparr>,
       channels = [(''A'', counter_on\<lparr>armed := True\<rparr>), (''B'', counter_busy), (''C'', counter_on)],
       channels_started = [''A''],
       calls = [ChStart ''A'' 10, ChStart ''B'' 10]\<rparr>)"
  by (simp add: start_channels_def app_busy_eq spec_driver_def spec_ch_start_def
      counter_on_def counter_busy_def)

subsection \<open>Slices\<close>

lemma filter_range: "filter (\<lambda>i. a \<le> i \<and> i < b) [0..<n] = [a..<min b n]"
proof (induction n)
  case 0
  then show ?case by simp
next
  case (Suc n)
  show ?case
  proof (cases "n < b")
    case True
    then have "min b n = n" "min b (Suc n) = Suc n" by simp_all
    with Suc True show ?thesis by simp
  next
    case False
    then have "min b n = b" "min b (Suc n) = b" by simp_all
    with Suc False show ?thesis by simp
  qed
qed

lemma take_drop_nth:
  "take k (drop lo xs) = map (\<lambda>i. xs ! i) [lo..<min (lo + k) (length xs)]"
proof -
  have "take k (drop lo xs) = take k (drop lo (map (\<lambda>i. xs ! i) [0..<length xs]))"
    by (simp add: map_nth)
  also have "\<dots> = map (\<lambda>i. xs ! i) (take k (drop lo [0..<length xs]))"
    by (simp add: take_map drop_map)
  also have "take k (drop lo [0..<length xs]) = [lo..<min (lo + k) (length xs)]"
    by (auto simp: min_def)
  finally show ?thesis .
qed

lemma slice_filter:
  "filter (\<lambda>i. slice_position n a \<le> int i \<and> int i < slice_position n b) [0..<n]
   = filter (\<lambda>i. slice_bound (int n) a \<le> i \<and> i < slice_bound (int n) b) [0..<n]"
  by (rule filter_cong) (auto simp: slice_position_def slice_bound_def)

text \<open>The clipped bounds of the code select the positions the specification names.\<close>

lemma py_slice_spec: "py_slice xs start end = slice_spec xs start end"
proof -
  let ?n = "length xs"
  let ?lo = "slice_bound (int ?n) start"
  let ?hi = "slice_bound (int ?n) end"
  have hi: "?hi \<le> ?n" by (auto simp: slice_bound_def)
  have "py_slice xs start end = map (\<lambda>i. xs ! i) [?lo..<min (?lo + (?hi - ?lo)) ?n]"
    by (simp add: py_slice_def Let_def take_drop_nth)
  also have "[?lo..<min (?lo + (?hi - ?lo)) ?n] = [?lo..<min ?hi ?n]"
    using hi by (cases "?lo \<le> ?hi") auto
  also have "\<dots> = filter (\<lambda>i. ?lo \<le> i \<and> i < ?hi) [0..<?n]"
    by (simp add: filter_range)
  finally show ?thesis
    by (simp add: slice_spec_def slice_filter)
qed

subsection \<open>The loops\<close>

lemma start_items_started:
  "channels_started (snd (start_items drv n items s)) =
     channels_started s @ started_and_enabled drv n items"
  by (induction items arbitrary: s)
     (auto simp: started_and_enabled_def started_ok_def split: prod.splits option.splits)

lemma start_items_calls:
  "calls (snd (start_items drv n items s)) =
     calls s @ map (\<lambda>(name, c). ChStart name n) (start_called drv n items)"
  by (induction items arbitrary: s)
     (auto simp: start_called_def started_ok_def split: prod.splits option.splits)

lemma start_items_result:
  "fst (start_items drv n items s) = None \<longleftrightarrow> started_ok drv n items = items"
  by (induction items arbitrary: s)
     (auto simp: started_ok_def split: prod.splits option.splits)

lemma start_items_timer: "timer (snd (start_items drv n items s)) = timer s"
  by (induction items arbitrary: s) (auto split: prod.splits option.splits)

lemma start_items_keys:
  "fst ` set items \<subseteq> fst ` set (channels s) \<Longrightarrow>
   map fst (channels (snd (start_items drv n items s))) = map fst (channels s)"
proof (induction items arbitrary: s)
  case Nil
  then show ?case by simp
next
  case (Cons p items)
  obtain name c where p: "p = (name, c)" by (cases p)
  obtain r c' where r: "ch_start drv n c = (r, c')" by (cases "ch_start drv n c")
  from Cons.prems p have k: "name \<in> fst ` set (channels s)" by simp
  have keys: "map fst (dict_set name c' (channels s)) = map fst (channels s)"
    by (rule keys_dict_set [OF k])
  then have K: "fst ` set (dict_set name c' (channels s)) = fst ` set (channels s)"
    by (rule keys_set)
  show ?case
  proof (cases r)
    case None
    with Cons.prems p r keys K show ?thesis
      by (simp add: Cons.IH)
  next
    case (Some e)
    with p r keys show ?thesis by simp
  qed
qed

lemma started_and_enabled_subset:
  "set (started_and_enabled drv n items) \<subseteq> fst ` set items"
  by (auto simp: started_and_enabled_def started_ok_def dest: set_takeWhileD
      intro: rev_image_eqI)

lemma stop_items_started:
  "channels_started (snd (stop_items drv items s)) = channels_started s"
  by (induction items arbitrary: s) (auto split: prod.splits option.splits)

lemma stop_items_keys:
  "fst ` set items \<subseteq> fst ` set (channels s) \<Longrightarrow>
   map fst (channels (snd (stop_items drv items s))) = map fst (channels s)"
proof (induction items arbitrary: s)
  case Nil
  then show ?case by simp
next
  case (Cons p items)
  obtain name c where p: "p = (name, c)" by (cases p)
  obtain r c' where r: "ch_stop drv c = (r, c')" by (cases "ch_stop drv c")
  from Cons.prems p have k: "name \<in> fst ` set (channels s)" by simp
  have keys: "map fst (dict_set name c' (channels s)) = map fst (channels s)"
    by (rule keys_dict_set [OF k])
  then have K: "fst ` set (dict_set name c' (channels s)) = fst ` set (channels s)"
    by (rule keys_set)
  show ?case
  proof (cases r)
    case None
    with Cons.prems p r keys K show ?thesis
      by (simp add: Cons.IH)
  next
    case (Some e)
    with p r keys show ?thesis by simp
  qed
qed

text \<open>When no channel's \<open>stop\<close> raises, the loop of \<open>stop\<close> reaches every channel.\<close>

lemma stop_items_ok:
  "\<forall>(name, c) \<in> set items. fst (ch_stop drv c) = None \<Longrightarrow>
   fst (stop_items drv items s) = None \<and>
   calls (snd (stop_items drv items s)) = calls s @ map (\<lambda>(name, c). ChStop name) items"
  by (induction items arbitrary: s) (auto split: prod.splits option.splits)






lemma set_enabled_loop_started:
  "channels_started (snd (set_enabled_loop names en s)) = channels_started s"
  by (induction names arbitrary: s) (auto split: sum.splits)

lemma set_enabled_loop_keys:
  "map fst (channels (snd (set_enabled_loop names en s))) = map fst (channels s)"
proof (induction names arbitrary: s)
  case Nil
  then show ?case by simp
next
  case (Cons name names)
  show ?case
  proof (cases "dict_get (channels s) name")
    case (Inl e)
    then show ?thesis by simp
  next
    case (Inr c)
    then have "name \<in> fst ` set (channels s)"
      by (rule dict_get_key)
    then have "map fst (dict_set name (c\<lparr>enabled := en\<rparr>) (channels s)) = map fst (channels s)"
      by (rule keys_dict_set)
    with Inr show ?thesis by (simp add: Cons.IH)
  qed
qed

lemma mark_enabled_keys: "map fst (mark_enabled N en d) = map fst d"
  by (induction d) (auto simp: mark_enabled_def)

text \<open>
  The loop of \<open>set_channels_enabled\<close> sets the flags of the names it meets before the
  first name that is not a key, and raises KeyError there.
\<close>

lemma set_enabled_loop_eq:
  "distinct (map fst (channels s)) \<Longrightarrow>
   set_enabled_loop names en s =
     (if set names \<subseteq> fst ` set (channels s) then None else Some KeyError,
      s\<lparr>channels :=
          mark_enabled (set (takeWhile (\<lambda>n. n \<in> fst ` set (channels s)) names)) en
            (channels s)\<rparr>)"
proof (induction names arbitrary: s)
  case Nil
  have "mark_enabled {} en (channels s) = channels s"
    by (auto simp: mark_enabled_def intro: map_idI)
  then show ?case by simp
next
  case (Cons name names)
  let ?K = "fst ` set (channels s)"
  show ?case
  proof (cases "name \<in> ?K")
    case False
    have "mark_enabled {} en (channels s) = channels s"
      by (auto simp: mark_enabled_def intro: map_idI)
    moreover from False have "map_of (channels s) name = None"
      by (simp add: map_of_eq_None_iff)
    ultimately show ?thesis using False
      by (simp add: dict_get_def)
  next
    case True
    then obtain c where c: "map_of (channels s) name = Some c"
      by (cases "map_of (channels s) name") (auto simp: map_of_eq_None_iff)
    let ?d = "dict_set name (c\<lparr>enabled := en\<rparr>) (channels s)"
    let ?s = "s\<lparr>channels := ?d\<rparr>"
    have same: "c' = c" if "(name, c') \<in> set (channels s)" for c'
      using map_of_is_SomeI [OF Cons.prems that] c by simp
    have d: "?d = mark_enabled {name} en (channels s)"
      unfolding dict_set_map [OF Cons.prems True] mark_enabled_def
      by (rule map_cong) (auto dest: same)
    have keys: "map fst ?d = map fst (channels s)"
      by (simp add: d mark_enabled_keys)
    then have K: "fst ` set ?d = ?K"
      by (rule keys_set)
    have dist: "distinct (map fst (channels ?s))"
      using Cons.prems keys by simp
    have comp: "mark_enabled N en (mark_enabled {name} en (channels s)) =
        mark_enabled (insert name N) en (channels s)" for N
      by (auto simp: mark_enabled_def)
    have "set_enabled_loop (name # names) en s = set_enabled_loop names en ?s"
      using c by (simp add: dict_get_def)
    also have "\<dots> = (if set names \<subseteq> ?K then None else Some KeyError,
        ?s\<lparr>channels := mark_enabled (set (takeWhile (\<lambda>n. n \<in> ?K) names)) en ?d\<rparr>)"
      using Cons.IH [OF dist] K by simp
    finally show ?thesis
      using True by (simp add: d comp)
  qed
qed

lemma samples_readies_loop_ok:
  "set names \<subseteq> fst ` set (channels s) \<Longrightarrow>
   samples_readies_loop names s acc =
     Inr (acc @ map (\<lambda>name. sample_readies (the (map_of (channels s) name))) names)"
proof (induction names arbitrary: acc)
  case Nil
  then show ?case by simp
next
  case (Cons name names)
  then obtain c where "map_of (channels s) name = Some c"
    by (cases "map_of (channels s) name") (auto simp: map_of_eq_None_iff)
  with Cons show ?case by (simp add: dict_get_def)
qed

lemma py_min_Min: "py_min (x # xs) = Inr (Min (set (x # xs)))"
proof -
  have a: "foldl min x xs = fold min xs x"
    by (simp add: foldl_conv_fold min.commute)
  have b: "Min (set (x # xs)) = fold min xs x"
    by (rule Min.set_eq_fold)
  show ?thesis unfolding py_min.simps a b ..
qed

subsection \<open>What each method keeps\<close>

lemma start_channels_keys:
  "map fst (channels (snd (start_channels drv n s))) = map fst (channels s)"
  by (simp add: start_channels_def start_items_keys)

lemma start_channels_started:
  "channels_started (snd (start_channels drv n s)) = started_and_enabled drv n (channels s)"
  by (simp add: start_channels_def start_items_started)

lemma start_timer_same:
  "channels (snd (start_timer drv n h l d s)) = channels s"
  "channels_started (snd (start_timer drv n h l d s)) = channels_started s"
  by (simp_all add: start_timer_def split: prod.splits)

lemma start_all_keys:
  "map fst (channels (snd (start_all drv n h l d s))) = map fst (channels s)"
  using start_channels_keys [of drv n s]
  by (auto simp: start_all_def start_timer_same split: prod.splits option.splits)

lemma start_all_started:
  "channels_started (snd (start_all drv n h l d s)) = started_and_enabled drv n (channels s)"
  using start_channels_started [of drv n s]
  by (auto simp: start_all_def start_timer_same split: prod.splits option.splits)

lemma stop_keys: "map fst (channels (snd (stop drv s))) = map fst (channels s)"
  by (auto simp: stop_def stop_items_keys split: prod.splits option.splits)

lemma stop_started: "channels_started (snd (stop drv s)) = channels_started s"
  by (auto simp: stop_def stop_items_started split: prod.splits option.splits)

lemma set_channels_enabled_keys:
  "map fst (channels (snd (set_channels_enabled names en s))) = map fst (channels s)"
  by (simp add: set_channels_enabled_def set_enabled_loop_keys)

lemma set_channels_enabled_started:
  "channels_started (snd (set_channels_enabled names en s)) = channels_started s"
  by (simp add: set_channels_enabled_def set_enabled_loop_started)

subsection \<open>Invariants of the reachable states\<close>

lemma reachable_started:
  "reachable drv s g \<Longrightarrow> channels_started s = g"
proof (induction rule: reachable.induct)
  case (r_init tm counters)
  show ?case by (simp add: CountingApp_init_def)
next
  case (r_hardware s g s')
  then show ?case by (simp add: hardware_step_def)
qed (simp_all add: start_channels_started start_timer_same start_all_started stop_started
      set_channels_enabled_started)

lemma reachable_subset:
  "reachable drv s g \<Longrightarrow> set (channels_started s) \<subseteq> fst ` set (channels s)"
proof (induction rule: reachable.induct)
  case (r_init tm counters)
  show ?case by (simp add: CountingApp_init_def)
next
  case (r_start_channels s g samples)
  show ?case
    using started_and_enabled_subset [of drv samples "channels s"]
    by (simp add: start_channels_started keys_set [OF start_channels_keys])
next
  case (r_start_timer s g samples high_time low_time initial_delay)
  then show ?case by (simp add: start_timer_same)
next
  case (r_start_all s g samples high_time low_time initial_delay)
  show ?case
    using started_and_enabled_subset [of drv samples "channels s"]
    by (simp add: start_all_started keys_set [OF start_all_keys])
next
  case (r_stop s g)
  then show ?case by (simp add: stop_started keys_set [OF stop_keys])
next
  case (r_set_channels_enabled s g names en)
  then show ?case
    by (simp add: set_channels_enabled_started keys_set [OF set_channels_enabled_keys])
next
  case (r_hardware s g s')
  from r_hardware.hyps(2) have "fst ` set (channels s') = fst ` set (channels s)"
    by (intro keys_set) (simp add: hardware_step_def)
  moreover from r_hardware.hyps(2) have "channels_started s' = channels_started s"
    by (simp add: hardware_step_def)
  ultimately show ?case using r_hardware.IH by simp
qed

lemma init_distinct: "distinct (map fst (channels (CountingApp_init tm counters)))"
proof -
  have "distinct (map fst d) \<Longrightarrow>
      distinct (map fst (foldl (\<lambda>d (name, c). dict_set name c d) d counters))"
    for d :: "(string \<times> channel) list"
    by (induction counters arbitrary: d) (auto simp: distinct_dict_set split: prod.splits)
  then show ?thesis by (simp add: CountingApp_init_def)
qed

text \<open>The keys of the channel dictionary are unique in every reachable state.\<close>

lemma reachable_distinct:
  "reachable drv s g \<Longrightarrow> distinct (map fst (channels s))"
proof (induction rule: reachable.induct)
  case (r_init tm counters)
  show ?case by (rule init_distinct)
next
  case (r_hardware s g s')
  then show ?case by (simp add: hardware_step_def)
qed (simp_all add: start_channels_keys start_timer_same start_all_keys stop_keys
      set_channels_enabled_keys)

text \<open>The run in flight is such a state.\<close>

lemma app_run_reachable: "reachable spec_driver app_run [''A'', ''C'']"
proof -
  let ?s0 = "CountingApp_init \<lparr>timer_done = True, timer_ok = True\<rparr>
      [(''A'', counter_on), (''B'', counter_off), (''C'', counter_on)]"
  let ?s1 = "snd (start_all spec_driver 10 1 1 0 ?s0)"
  have s0: "channels ?s0 = [(''A'', counter_on), (''B'', counter_off), (''C'', counter_on)]"
    by (simp add: CountingApp_init_def)
  have g: "started_and_enabled spec_driver 10 (channels ?s0) = [''A'', ''C'']"
    unfolding s0
    by (simp add: started_and_enabled_def started_ok_def spec_driver_def
        spec_ch_start_def counter_on_def counter_off_def)
  have "reachable spec_driver ?s1 (started_and_enabled spec_driver 10 (channels ?s0))"
    by (rule r_start_all [OF r_init])
  then have r1: "reachable spec_driver ?s1 [''A'', ''C'']"
    by (simp only: g)
  have ks: "map fst (channels ?s1) = [''A'', ''B'', ''C'']"
    by (simp add: start_all_keys s0)
  have st: "channels_started ?s1 = [''A'', ''C'']"
    by (simp add: start_all_started g)
  have s1: "?s1 =
     \<lparr>timer = \<lparr>timer_done = False, timer_ok = True\<rparr>,
      channels = [(''A'', counter_on\<lparr>armed := True\<rparr>), (''B'', counter_off\<lparr>armed := True\<rparr>),
                  (''C'', counter_on\<lparr>armed := True\<rparr>)],
      channels_started = [''A'', ''C''],
      calls = [ChStart ''A'' 10, ChStart ''B'' 10, ChStart ''C'' 10, TmStart 10 1 1 0]\<rparr>"
    by (simp add: start_all_def start_channels_def start_timer_def CountingApp_init_def
        spec_driver_def spec_ch_start_def spec_tm_start_def counter_on_def counter_off_def)
  have "hardware_step ?s1 app_run"
    unfolding s1
    by (simp add: hardware_step_def app_run_def counter_five_def counter_three_def
        counter_two_def counter_on_def counter_off_def)
  with r1 show ?thesis by (rule r_hardware)
qed

section \<open>The claims\<close>

subsection \<open>Reading all data\<close>

text \<open>
  C1. The claim: when the list of started names is not empty, \<open>get_all_data\<close> returns
  a dictionary whose keys are the started names, each with its channel's buffer. The
  code does not: in the scenario, after \<open>start_channels\<close> has collected \<open>A\<close>, the
  method indexes the list of started names with the string \<open>A\<close> and raises TypeError.
\<close>

theorem get_all_data_started_raises:
  "channels_started (snd (start_channels spec_driver 10 app_AB)) = [''A''] \<and>
   get_all_data (snd (start_channels spec_driver 10 app_AB)) = Inl TypeError"
  by (simp add: start_channels_app_AB get_all_data_def list_getitem_str_def)

text \<open>
  C9. When the list of started names is empty, \<open>get_all_data\<close> returns the empty
  dictionary and raises nothing.
\<close>

theorem get_all_data_none_started:
  "channels_started s = [] \<Longrightarrow> get_all_data s = Inr []"
  by (simp add: get_all_data_def)

theorem get_all_data_none_started_witness:
  "channels_started app_AB = [] \<and> get_all_data app_AB = Inr []"
proof -
  have h: "channels_started app_AB = []"
    by (simp add: app_AB_eq)
  from get_all_data_none_started [OF h] h show ?thesis
    by simp
qed

subsection \<open>Starting\<close>

text \<open>
  C2, as the code has it. \<open>start_channels\<close> calls \<open>start\<close> with the sample count on
  the configured channels in configuration order whatever their enabled flags: on all
  of them when no \<open>start\<close> raises, and otherwise up to and including the first one
  whose \<open>start\<close> raises. It calls nothing else, so it stops no channel. A name is
  collected into the started names only if the \<open>start\<close> of its channel returned and the
  channel's enabled flag was true at that moment.
\<close>

theorem start_channels_calls_every_channel:
  "calls (snd (start_channels drv samples s)) =
     calls s @ map (\<lambda>(name, c). ChStart name samples) (start_called drv samples (channels s)) \<and>
   (fst (start_channels drv samples s) = None \<longrightarrow>
      start_called drv samples (channels s) = channels s) \<and>
   (\<forall>name \<in> set (channels_started (snd (start_channels drv samples s))).
      \<exists>c. (name, c) \<in> set (channels s) \<and>
          fst (ch_start drv samples c) = None \<and>
          enabled (snd (ch_start drv samples c)))"
proof -
  have 1: "calls (snd (start_channels drv samples s)) =
     calls s @ map (\<lambda>(name, c). ChStart name samples) (start_called drv samples (channels s))"
    by (simp add: start_channels_def start_items_calls)
  have 2: "start_called drv samples (channels s) = channels s"
    if "fst (start_channels drv samples s) = None"
  proof -
    from that have "started_ok drv samples (channels s) = channels s"
      by (simp add: start_channels_def start_items_result)
    then show ?thesis by (simp add: start_called_def)
  qed
  have 3: "\<exists>c. (name, c) \<in> set (channels s) \<and>
          fst (ch_start drv samples c) = None \<and>
          enabled (snd (ch_start drv samples c))"
    if "name \<in> set (channels_started (snd (start_channels drv samples s)))" for name
  proof -
    from that have "name \<in> set (started_and_enabled drv samples (channels s))"
      by (simp add: start_channels_def start_items_started)
    then obtain c where "(name, c) \<in> set (started_ok drv samples (channels s))"
      and en: "enabled (snd (ch_start drv samples c))"
      by (auto simp: started_and_enabled_def)
    then have "(name, c) \<in> set (channels s)" "fst (ch_start drv samples c) = None"
      by (auto simp: started_ok_def dest: set_takeWhileD)
    with en show ?thesis by blast
  qed
  from 1 2 3 show ?thesis by blast
qed

theorem start_channels_calls_every_channel_witness:
  "fst (start_channels spec_driver 10 app_AB) = None \<and>
   start_called spec_driver 10 (channels app_AB) = channels app_AB \<and>
   calls (snd (start_channels spec_driver 10 app_AB)) = [ChStart ''A'' 10, ChStart ''B'' 10] \<and>
   channels_started (snd (start_channels spec_driver 10 app_AB)) = [''A''] \<and>
   (''A'', counter_on) \<in> set (channels app_AB) \<and>
   fst (ch_start spec_driver 10 counter_on) = None \<and>
   enabled (snd (ch_start spec_driver 10 counter_on))"
proof -
  have h: "fst (start_channels spec_driver 10 app_AB) = None"
    by (simp add: start_channels_app_AB)
  have "start_called spec_driver 10 (channels app_AB) = channels app_AB"
    using start_channels_calls_every_channel [of spec_driver 10 app_AB] h by blast
  with h show ?thesis
    by (simp add: start_channels_app_AB)
       (simp add: app_AB_eq spec_driver_def spec_ch_start_def counter_on_def)
qed

text \<open>
  The claim as the specification words it, that \<open>start\<close> is called only on enabled
  channels, fails in the scenario: counter \<open>B\<close> is disabled, and \<open>start_channels\<close>
  calls its \<open>start\<close>.
\<close>

theorem start_channels_starts_disabled:
  "dict_get (channels app_AB) ''B'' = Inr counter_off \<and> \<not> enabled counter_off \<and>
   ChStart ''B'' 10 \<in> set (calls (snd (start_channels spec_driver 10 app_AB)))"
  by (simp add: start_channels_app_AB)
     (simp add: app_AB_eq dict_get_def counter_off_def counter_on_def)

text \<open>
  C4. \<open>start_all\<close> performs \<open>start_channels\<close> and then \<open>start_timer\<close>: when
  \<open>start_channels\<close> returns, the calls made are the \<open>start\<close> of every channel followed
  by the \<open>start\<close> of the timer. When \<open>start_channels\<close> raises, \<open>start_all\<close> ends with
  that exception in the state \<open>start_channels\<close> left: the timer's \<open>start\<close> is not among
  the calls and the timer is untouched.
\<close>

theorem start_all_order:
  "(fst (start_channels drv samples s) = None \<longrightarrow>
      start_all drv samples high_time low_time initial_delay s =
        start_timer drv samples high_time low_time initial_delay
          (snd (start_channels drv samples s)) \<and>
      calls (snd (start_all drv samples high_time low_time initial_delay s)) =
        calls s @ map (\<lambda>(name, c). ChStart name samples) (channels s)
          @ [TmStart samples high_time low_time initial_delay]) \<and>
   (fst (start_channels drv samples s) \<noteq> None \<longrightarrow>
      start_all drv samples high_time low_time initial_delay s = start_channels drv samples s \<and>
      calls (snd (start_all drv samples high_time low_time initial_delay s)) =
        calls s @ map (\<lambda>(name, c). ChStart name samples)
          (start_called drv samples (channels s)) \<and>
      timer (snd (start_all drv samples high_time low_time initial_delay s)) = timer s)"
proof -
  obtain r s' where rs: "start_channels drv samples s = (r, s')"
    by (cases "start_channels drv samples s")
  have cl: "calls s' =
      calls s @ map (\<lambda>(name, c). ChStart name samples) (start_called drv samples (channels s))"
    using start_items_calls [of drv samples "channels s" "s\<lparr>channels_started := []\<rparr>"] rs
    by (simp add: start_channels_def)
  have tm: "timer s' = timer s"
    using start_items_timer [of drv samples "channels s" "s\<lparr>channels_started := []\<rparr>"] rs
    by (simp add: start_channels_def)
  show ?thesis
  proof (cases r)
    case None
    then have "started_ok drv samples (channels s) = channels s"
      using start_items_result [of drv samples "channels s" "s\<lparr>channels_started := []\<rparr>"] rs
      by (simp add: start_channels_def)
    then have "start_called drv samples (channels s) = channels s"
      by (simp add: start_called_def)
    with None rs cl show ?thesis
      by (simp add: start_all_def start_timer_def split: prod.splits)
  next
    case (Some e)
    with rs cl tm show ?thesis
      by (simp add: start_all_def)
  qed
qed

theorem start_all_order_witness:
  "fst (start_channels spec_driver 10 app_AB) = None \<and>
   calls (snd (start_all spec_driver 10 1 1 0 app_AB)) =
     [ChStart ''A'' 10, ChStart ''B'' 10, TmStart 10 1 1 0] \<and>
   fst (start_channels spec_driver 10 app_busy) \<noteq> None \<and>
   start_all spec_driver 10 1 1 0 app_busy = start_channels spec_driver 10 app_busy \<and>
   calls (snd (start_all spec_driver 10 1 1 0 app_busy)) =
     [ChStart ''A'' 10, ChStart ''B'' 10] \<and>
   timer (snd (start_all spec_driver 10 1 1 0 app_busy)) = timer app_busy"
proof -
  have h1: "fst (start_channels spec_driver 10 app_AB) = None"
    by (simp add: start_channels_app_AB)
  have h2: "fst (start_channels spec_driver 10 app_busy) \<noteq> None"
    by (simp add: start_channels_app_busy)
  have 1: "calls (snd (start_all spec_driver 10 1 1 0 app_AB)) =
      calls app_AB @ map (\<lambda>(name, c). ChStart name 10) (channels app_AB) @ [TmStart 10 1 1 0]"
    using start_all_order [of spec_driver 10 app_AB 1 1 0] h1 by blast
  have 2: "start_all spec_driver 10 1 1 0 app_busy = start_channels spec_driver 10 app_busy"
    using start_all_order [of spec_driver 10 app_busy 1 1 0] h2 by blast
  have 3: "calls app_AB @ map (\<lambda>(name, c). ChStart name 10) (channels app_AB) @ [TmStart 10 1 1 0]
      = [ChStart ''A'' 10, ChStart ''B'' 10, TmStart 10 1 1 0]"
    by (simp add: app_AB_eq)
  have 4: "calls (snd (start_channels spec_driver 10 app_busy)) =
      [ChStart ''A'' 10, ChStart ''B'' 10]"
    "timer (snd (start_channels spec_driver 10 app_busy)) = timer app_busy"
    by (simp_all add: start_channels_app_busy) (simp add: app_busy_eq)
  from h1 h2 show ?thesis
    by (simp only: 1 2 3 4) simp
qed

subsection \<open>Stopping\<close>




subsection \<open>The started names\<close>

text \<open>
  C8. In every reachable state the started names are names of configured channels,
  and a name is among them exactly when the most recent \<open>start_channels\<close> started its
  channel and found it enabled at that moment.
\<close>

theorem channels_started_invariant:
  "reachable drv s g \<Longrightarrow>
   set (channels_started s) \<subseteq> set (get_names s) \<and>
   (\<forall>name. name \<in> set (channels_started s) \<longleftrightarrow> name \<in> set g)"
  using reachable_started [of drv s g] reachable_subset [of drv s g]
  by (auto simp: get_names_def)

theorem channels_started_invariant_witness:
  "reachable spec_driver app_run [''A'', ''C''] \<and>
   channels_started app_run = [''A'', ''C''] \<and>
   get_names app_run = [''A'', ''B'', ''C'']"
proof -
  have "set (channels_started app_run) \<subseteq> set (get_names app_run)"
    using channels_started_invariant [OF app_run_reachable] by blast
  with app_run_reachable show ?thesis
    by (simp add: app_run_def get_names_def)
qed

text \<open>
  C3. \<open>get_samples_readies\<close> returns the least \<open>sample_readies\<close> among the channels
  whose names are started, and 0, not an error, when no name is started. The started
  names are names of configured channels, as in every reachable state.
\<close>

theorem get_samples_readies_min:
  assumes "set (channels_started s) \<subseteq> set (get_names s)"
  shows "get_samples_readies s =
     Inr (if channels_started s = [] then 0
          else Min ((\<lambda>name. sample_readies (the (map_of (channels s) name)))
                      ` set (channels_started s)))"
proof (cases "channels_started s")
  case Nil
  then show ?thesis by (simp add: get_samples_readies_def)
next
  case (Cons n ns)
  let ?f = "\<lambda>name. sample_readies (the (map_of (channels s) name))"
  from assms have sub: "set (channels_started s) \<subseteq> fst ` set (channels s)"
    by (simp add: get_names_def)
  have "get_samples_readies s = py_min (map ?f (n # ns))"
    using samples_readies_loop_ok [OF sub, of "[]"] Cons
    by (simp add: get_samples_readies_def)
  also have "\<dots> = Inr (Min (set (map ?f (n # ns))))"
    unfolding list.map by (rule py_min_Min)
  finally show ?thesis using Cons by simp
qed

theorem get_samples_readies_min_witness:
  "set (channels_started app_run) \<subseteq> set (get_names app_run) \<and>
   get_samples_readies app_run = Inr 2 \<and>
   set (channels_started app_AB) \<subseteq> set (get_names app_AB) \<and>
   get_samples_readies app_AB = Inr 0"
proof -
  have h1: "set (channels_started app_run) \<subseteq> set (get_names app_run)"
    by (simp add: app_run_def get_names_def)
  have h2: "set (channels_started app_AB) \<subseteq> set (get_names app_AB)"
    by (simp add: app_AB_eq get_names_def)
  have 1: "get_samples_readies app_run = Inr 2"
    using get_samples_readies_min [OF h1]
    by (simp add: app_run_def counter_five_def counter_two_def)
  have 2: "get_samples_readies app_AB = Inr 0"
    using get_samples_readies_min [OF h2]
    by (simp add: app_AB_eq)
  from h1 h2 1 2 show ?thesis by blast
qed

subsection \<open>Reading one channel\<close>

text \<open>
  C5. For a configured name, \<open>get_channel_data\<close> returns the slice of the channel's
  buffer that the specification describes: start-inclusive, end-exclusive, negative
  indices counting from the end. On the buffer 1, 2, 3, 4, 5 the bounds 0 and -1 give
  1, 2, 3, 4 and the bounds 2 and -1 give 3, 4.
\<close>

theorem get_channel_data_slice:
  "dict_get (channels s) name = Inr c \<Longrightarrow>
   get_channel_data s name start end = Inr (slice_spec (data c) start end) \<and>
   (data c = [1, 2, 3, 4, 5] \<longrightarrow>
      get_channel_data s name 0 (- 1) = Inr [1, 2, 3, 4] \<and>
      get_channel_data s name 2 (- 1) = Inr [3, 4])"
  by (simp add: get_channel_data_def py_slice_spec [symmetric])
     (simp add: py_slice_def slice_bound_def)

theorem get_channel_data_slice_witness:
  "dict_get (channels app_run) ''A'' = Inr counter_five \<and>
   data counter_five = [1, 2, 3, 4, 5] \<and>
   get_channel_data app_run ''A'' 1 3 = Inr (slice_spec [1, 2, 3, 4, 5] 1 3) \<and>
   get_channel_data app_run ''A'' 0 (- 1) = Inr [1, 2, 3, 4] \<and>
   get_channel_data app_run ''A'' 2 (- 1) = Inr [3, 4]"
proof -
  have h: "dict_get (channels app_run) ''A'' = Inr counter_five"
    by (simp add: app_run_def dict_get_def)
  have d: "data counter_five = [1, 2, 3, 4, 5]"
    by (simp add: counter_five_def)
  from get_channel_data_slice [OF h, of 1 3] h d show ?thesis
    by simp
qed

text \<open>
  C10. For a configured name, \<open>get_channel_data\<close> returns the requested slice of the
  channel's buffer whatever the channel's enabled flag and whatever the list of
  started names: setting the flag to any value and the list to any list leaves the
  result as it is.
\<close>

theorem get_channel_data_any_flag:
  "dict_get (channels s) name = Inr c \<Longrightarrow>
   get_channel_data
     (s\<lparr>channels := dict_set name (c\<lparr>enabled := en\<rparr>) (channels s), channels_started := st\<rparr>)
     name start end
     = Inr (py_slice (data c) start end) \<and>
   get_channel_data s name start end = Inr (py_slice (data c) start end)"
  by (simp add: get_channel_data_def dict_get_def map_of_dict_set)

theorem get_channel_data_any_flag_witness:
  "dict_get (channels app_run) ''B'' = Inr counter_three \<and>
   \<not> enabled counter_three \<and> ''B'' \<notin> set (channels_started app_run) \<and>
   get_channel_data app_run ''B'' 0 2 = Inr [7, 8] \<and>
   get_channel_data
     (app_run\<lparr>channels := dict_set ''B'' (counter_three\<lparr>enabled := True\<rparr>) (channels app_run),
        channels_started := [''B'']\<rparr>) ''B'' 0 2 = Inr [7, 8]"
proof -
  have h: "dict_get (channels app_run) ''B'' = Inr counter_three"
    by (simp add: app_run_def dict_get_def)
  have p: "py_slice (data counter_three) 0 2 = [7, 8]"
    by (simp add: counter_three_def py_slice_def slice_bound_def)
  have i: "get_channel_data
     (app_run\<lparr>channels := dict_set ''B'' (counter_three\<lparr>enabled := True\<rparr>) (channels app_run),
        channels_started := [''B'']\<rparr>) ''B'' 0 2 = Inr (py_slice (data counter_three) 0 2) \<and>
     get_channel_data app_run ''B'' 0 2 = Inr (py_slice (data counter_three) 0 2)"
    by (rule get_channel_data_any_flag [OF h])
  have f: "\<not> enabled counter_three" "''B'' \<notin> set (channels_started app_run)"
    by (simp_all add: counter_three_def app_run_def)
  from i h f show ?thesis
    by (simp only: p) simp
qed

subsection \<open>Enabling and disabling\<close>

text \<open>
  C6, as the code has it. The keys of the channel dictionary are unique, as in every
  reachable state. With an empty list of names \<open>set_channels_enabled\<close> sets the flag
  of every configured channel; with names that are all configured it sets the flags
  of the named channels only; and when some name is not configured it raises KeyError
  at the first such name, having set the flags of the names before it in the list and
  no other.
\<close>

theorem set_channels_enabled_effect:
  assumes "distinct (map fst (channels s))"
  shows
   "set_channels_enabled [] en s =
      (None, s\<lparr>channels := mark_enabled UNIV en (channels s)\<rparr>) \<and>
    (names \<noteq> [] \<and> set names \<subseteq> fst ` set (channels s) \<longrightarrow>
       set_channels_enabled names en s =
         (None, s\<lparr>channels := mark_enabled (set names) en (channels s)\<rparr>)) \<and>
    (\<not> set names \<subseteq> fst ` set (channels s) \<longrightarrow>
       set_channels_enabled names en s =
         (Some KeyError,
          s\<lparr>channels :=
              mark_enabled (set (takeWhile (\<lambda>n. n \<in> fst ` set (channels s)) names)) en
                (channels s)\<rparr>))"
proof -
  have all: "mark_enabled (fst ` set d) en d = mark_enabled UNIV en d" for d
    by (auto simp: mark_enabled_def rev_image_eqI)
  have tw: "set ns \<subseteq> K \<Longrightarrow> takeWhile (\<lambda>n. n \<in> K) ns = ns" for ns :: "string list" and K
    by (induction ns) auto
  have 1: "set_channels_enabled [] en s =
      (None, s\<lparr>channels := mark_enabled UNIV en (channels s)\<rparr>)"
    using set_enabled_loop_eq [OF assms, of "map fst (channels s)" en]
    by (simp add: set_channels_enabled_def tw all)
  have 2: "set_channels_enabled names en s =
      (None, s\<lparr>channels := mark_enabled (set names) en (channels s)\<rparr>)"
    if "names \<noteq> []" "set names \<subseteq> fst ` set (channels s)"
    using set_enabled_loop_eq [OF assms, of names en] that
    by (simp add: set_channels_enabled_def tw)
  have 3: "set_channels_enabled names en s =
         (Some KeyError,
          s\<lparr>channels :=
              mark_enabled (set (takeWhile (\<lambda>n. n \<in> fst ` set (channels s)) names)) en
                (channels s)\<rparr>)"
    if "\<not> set names \<subseteq> fst ` set (channels s)"
  proof -
    from that have "names \<noteq> []" by auto
    then show ?thesis
      using set_enabled_loop_eq [OF assms, of names en] that
      by (simp add: set_channels_enabled_def)
  qed
  from 1 2 3 show ?thesis by blast
qed

theorem set_channels_enabled_effect_witness:
  "distinct (map fst (channels app_AB)) \<and>
   set_channels_enabled [] False app_AB =
     (None, app_AB\<lparr>channels := [(''A'', counter_off), (''B'', counter_off)]\<rparr>) \<and>
   [''B''] \<noteq> [] \<and> set [''B''] \<subseteq> fst ` set (channels app_AB) \<and>
   set_channels_enabled [''B''] True app_AB =
     (None, app_AB\<lparr>channels := [(''A'', counter_on), (''B'', counter_on)]\<rparr>) \<and>
   \<not> set [''A'', ''Z''] \<subseteq> fst ` set (channels app_AB) \<and>
   set_channels_enabled [''A'', ''Z''] False app_AB =
     (Some KeyError, app_AB\<lparr>channels := [(''A'', counter_off), (''B'', counter_off)]\<rparr>)"
proof -
  have h: "distinct (map fst (channels app_AB))"
    by (simp add: app_AB_eq)
  have k: "fst ` set (channels app_AB) = {''A'', ''B''}"
    by (auto simp: app_AB_eq)
  have h2: "[''B''] \<noteq> [] \<and> set [''B''] \<subseteq> fst ` set (channels app_AB)"
    by (simp add: k)
  have h3: "\<not> set [''A'', ''Z''] \<subseteq> fst ` set (channels app_AB)"
    by (simp add: k)
  have 1: "set_channels_enabled [] False app_AB =
      (None, app_AB\<lparr>channels := mark_enabled UNIV False (channels app_AB)\<rparr>)"
    using set_channels_enabled_effect [where s = app_AB and en = False and names = "[]", OF h]
    by blast
  have 2: "set_channels_enabled [''B''] True app_AB =
      (None, app_AB\<lparr>channels := mark_enabled (set [''B'']) True (channels app_AB)\<rparr>)"
    using set_channels_enabled_effect [where s = app_AB and en = True and names = "[''B'']", OF h]
      h2
    by blast
  have 3: "set_channels_enabled [''A'', ''Z''] False app_AB =
      (Some KeyError,
       app_AB\<lparr>channels :=
          mark_enabled (set (takeWhile (\<lambda>n. n \<in> fst ` set (channels app_AB)) [''A'', ''Z'']))
            False (channels app_AB)\<rparr>)"
    using set_channels_enabled_effect
        [where s = app_AB and en = False and names = "[''A'', ''Z'']", OF h] h3
    by blast
  have m1: "mark_enabled UNIV False (channels app_AB) = [(''A'', counter_off), (''B'', counter_off)]"
    by (simp add: mark_enabled_def app_AB_eq counter_off_def counter_on_def)
  have m2: "mark_enabled (set [''B'']) True (channels app_AB) =
      [(''A'', counter_on), (''B'', counter_on)]"
    by (simp add: mark_enabled_def app_AB_eq counter_off_def counter_on_def)
  have m3: "mark_enabled (set (takeWhile (\<lambda>n. n \<in> fst ` set (channels app_AB)) [''A'', ''Z'']))
      False (channels app_AB) = [(''A'', counter_off), (''B'', counter_off)]"
    unfolding k
    by (simp add: mark_enabled_def app_AB_eq counter_off_def counter_on_def)
  from h h2 h3 show ?thesis
    by (simp only: 1 2 3 m1 m2 m3) simp
qed

text \<open>
  The claim as the specification words it, that a call which fails leaves every flag
  unchanged, fails in the scenario: with the names \<open>A\<close> and \<open>Z\<close> the call raises
  KeyError at \<open>Z\<close>, after the flag of \<open>A\<close> has been cleared.
\<close>

theorem set_channels_enabled_partial:
  "fst (set_channels_enabled [''A'', ''Z''] False app_AB) = Some KeyError \<and>
   map (\<lambda>(name, c). (name, enabled c)) (channels app_AB) = [(''A'', True), (''B'', False)] \<and>
   map (\<lambda>(name, c). (name, enabled c))
     (channels (snd (set_channels_enabled [''A'', ''Z''] False app_AB)))
     = [(''A'', False), (''B'', False)]"
  by (simp add: set_channels_enabled_def app_AB_eq dict_get_def counter_on_def counter_off_def)

end
